theory Spec2Isabelle
  imports Main
begin

section \<open>JavaScript values\<close>

text \<open>
  The handler works on untyped values that come out of \<^verbatim>\<open>JSON.parse\<close> and
  \<^verbatim>\<open>response.json()\<close>. A value is a JSON tree; JavaScript's \<^verbatim>\<open>undefined\<close> (a
  missing property) is \<open>None\<close> of \<open>json option\<close>. An object is the list of its
  properties in insertion order. Numbers are integers here: the code only tests a
  number for truthiness and passes it on.
\<close>

datatype json =
    JNull
  | JBool bool
  | JNum int
  | JStr string
  | JArr "json list"
  | JObj "(string \<times> json) list"

text \<open>\<^verbatim>\<open>!!v\<close>: null, false, 0 and the empty string are falsy, every array and object is truthy.\<close>

fun truthy :: "json \<Rightarrow> bool" where
  "truthy JNull = False"
| "truthy (JBool b) = b"
| "truthy (JNum n) = (n \<noteq> 0)"
| "truthy (JStr s) = (s \<noteq> [])"
| "truthy (JArr xs) = True"
| "truthy (JObj kvs) = True"

definition truthy_opt :: "json option \<Rightarrow> bool" where
  "truthy_opt v = (case v of None \<Rightarrow> False | Some x \<Rightarrow> truthy x)"

text \<open>
  \<^verbatim>\<open>v?.k\<close> for the property names the code reads (name, value, id, order, tags,
  draft_order_id, draft_order, note_attributes): only an object has them; on
  \<^verbatim>\<open>null\<close>, \<^verbatim>\<open>undefined\<close>, a primitive or an array the result is \<^verbatim>\<open>undefined\<close>.
\<close>

fun get_prop :: "json option \<Rightarrow> string \<Rightarrow> json option" where
  "get_prop (Some (JObj kvs)) k = map_of kvs k"
| "get_prop v k = None"

text \<open>\<^verbatim>\<open>v ?? d\<close>: the default replaces exactly \<^verbatim>\<open>null\<close> and \<^verbatim>\<open>undefined\<close>.\<close>

definition nullish_or :: "json option \<Rightarrow> json \<Rightarrow> json" where
  "nullish_or v d = (case v of None \<Rightarrow> d | Some JNull \<Rightarrow> d | Some x \<Rightarrow> x)"

section \<open>mergeNoteAttributes\<close>

text \<open>
  \<^verbatim>\<open>a?.name\<close> and the fresh object \<^verbatim>\<open>{ name: a.name, value: a.value ?? "" }\<close>.
\<close>

definition attr_name :: "json \<Rightarrow> json option" where
  "attr_name a = get_prop (Some a) ''name''"

definition new_attr :: "json \<Rightarrow> json \<Rightarrow> json" where
  "new_attr n a = JObj [(''name'', n), (''value'', nullish_or (get_prop (Some a) ''value'') (JStr ''''))]"

text \<open>
  The \<^verbatim>\<open>Map\<close> from names to positions. A \<^verbatim>\<open>Map\<close> compares keys by SameValueZero:
  primitives by value, arrays and objects by reference. The two lists the handler
  passes are the results of two separate \<^verbatim>\<open>response.json()\<close> calls, so a name of
  \<open>incoming\<close> that is an array or an object is a reference the map does not hold.
\<close>

fun by_reference :: "json \<Rightarrow> bool" where
  "by_reference (JArr xs) = True"
| "by_reference (JObj kvs) = True"
| "by_reference v = False"

definition Map_get :: "(json \<rightharpoonup> nat) \<Rightarrow> json \<Rightarrow> nat option" where
  "Map_get idx k = (if by_reference k then None else idx k)"

text \<open>\<^verbatim>\<open>out.forEach((a, i) => a?.name && idx.set(a.name, i))\<close>\<close>

definition index_step :: "nat \<times> json \<Rightarrow> (json \<rightharpoonup> nat) \<Rightarrow> (json \<rightharpoonup> nat)" where
  "index_step p idx =
     (case attr_name (snd p) of
        None \<Rightarrow> idx
      | Some n \<Rightarrow> if truthy n then idx(n \<mapsto> fst p) else idx)"

definition index_names :: "json list \<Rightarrow> (json \<rightharpoonup> nat)" where
  "index_names out = fold index_step (enumerate 0 out) Map.empty"

text \<open>
  One round of \<^verbatim>\<open>for (const a of incoming)\<close>. An index the map holds is a position
  of \<open>existing\<close> and \<open>out\<close> only grows, so the assignment \<^verbatim>\<open>out[i] = ...\<close> is always
  in range.
\<close>

definition merge_step :: "(json \<rightharpoonup> nat) \<Rightarrow> json \<Rightarrow> json list \<Rightarrow> json list" where
  "merge_step idx a out =
     (case attr_name a of
        None \<Rightarrow> out
      | Some n \<Rightarrow>
          if \<not> truthy n then out
          else (case Map_get idx n of
                  None \<Rightarrow> out @ [new_attr n a]
                | Some i \<Rightarrow> out[i := new_attr n a]))"

definition mergeNoteAttributes :: "json list \<Rightarrow> json list \<Rightarrow> json list" where
  "mergeNoteAttributes existing incoming =
     (let out = existing;
          idx = index_names out
      in fold (merge_step idx) incoming out)"

section \<open>The library functions the handler calls\<close>

text \<open>
  \<^verbatim>\<open>crypto.createHmac("sha256", secret).update(raw).digest("base64")\<close>,
  \<^verbatim>\<open>JSON.parse\<close> (\<open>None\<close> when it throws) and \<^verbatim>\<open>JSON.stringify\<close> come from the
  runtime, not from this repository: the handler takes them as parameters.
\<close>

record platform =
  hmac_sha256_base64 :: "string \<Rightarrow> string \<Rightarrow> string"
  JSON_parse :: "string \<Rightarrow> json option"
  JSON_stringify :: "json \<Rightarrow> string"

text \<open>
  A string stands for its UTF-8 bytes, so \<^verbatim>\<open>Buffer.from(a || "", "utf8")\<close> is the
  string itself, and the empty buffer for \<^verbatim>\<open>undefined\<close> and \<^verbatim>\<open>""\<close>.
  \<^verbatim>\<open>crypto.timingSafeEqual\<close> on two buffers of one length says whether they hold the
  same bytes.
\<close>

definition Buffer_from :: "string option \<Rightarrow> string" where
  "Buffer_from a = (case a of None \<Rightarrow> [] | Some s \<Rightarrow> s)"

definition timingSafeEqual :: "string option \<Rightarrow> string option \<Rightarrow> bool" where
  "timingSafeEqual a b =
     (let ab = Buffer_from a;
          bb = Buffer_from b
      in if length ab \<noteq> length bb then False else ab = bb)"

definition differs :: "platform \<Rightarrow> json option \<Rightarrow> json option \<Rightarrow> bool" where
  "differs P a1 a2 =
     (JSON_stringify P (nullish_or a1 (JArr [])) \<noteq> JSON_stringify P (nullish_or a2 (JArr [])))"

text \<open>\<^verbatim>\<open>v || d\<close>\<close>

definition or_else :: "json option \<Rightarrow> json \<Rightarrow> json" where
  "or_else v d = (case v of None \<Rightarrow> d | Some x \<Rightarrow> if truthy x then x else d)"

text \<open>
  \<^verbatim>\<open>s.toLowerCase()\<close> on the letters A to Z, and \<^verbatim>\<open>s.includes(t)\<close>.
\<close>

definition toLowerCase :: "string \<Rightarrow> string" where
  "toLowerCase s =
     map (\<lambda>c. case map_of (zip ''ABCDEFGHIJKLMNOPQRSTUVWXYZ'' ''abcdefghijklmnopqrstuvwxyz'') c of
                 None \<Rightarrow> c
               | Some l \<Rightarrow> l) s"

fun str_includes :: "string \<Rightarrow> string \<Rightarrow> bool" where
  "str_includes [] t = (t = [])"
| "str_includes (c # cs) t = (take (length t) (c # cs) = t \<or> str_includes cs t)"

text \<open>
  \<^verbatim>\<open>[...v]\<close> copies an array and splits a string into its characters; any other value
  that reaches it (a number, \<^verbatim>\<open>true\<close>, an object) is not iterable and the spread
  throws. \<^verbatim>\<open>v.filter(f)\<close> exists on arrays only.
\<close>

fun spread :: "json \<Rightarrow> json list option" where
  "spread (JArr xs) = Some xs"
| "spread (JStr s) = Some (map (\<lambda>c. JStr [c]) s)"
| "spread v = None"

fun array_filter :: "json \<Rightarrow> (json \<Rightarrow> bool) \<Rightarrow> json list option" where
  "array_filter (JArr xs) f = Some (filter f xs)"
| "array_filter v f = None"

text \<open>
  A template literal \<^verbatim>\<open>`${v}`\<close> converts \<open>v\<close> to a string. A primitive converts. An
  array converts when its elements do (they are joined, \<^verbatim>\<open>null\<close> as the empty string). An
  object converts to \<^verbatim>\<open>[object Object]\<close> unless it has a property \<^verbatim>\<open>toString\<close> of its
  own: a value out of JSON is never callable, so that property is passed over,
  \<^verbatim>\<open>valueOf\<close> gives no primitive either, and the conversion throws a TypeError.
\<close>

fun converts :: "json \<Rightarrow> bool" where
  "converts (JArr xs) = list_all converts xs"
| "converts (JObj kvs) = (map_of kvs ''toString'' = None)"
| "converts v = True"

section \<open>The handler\<close>

text \<open>
  A request is the method, the \<^verbatim>\<open>x-shopify-hmac-sha256\<close> header and the raw body that
  \<^verbatim>\<open>readRawBody\<close> collects. The environment holds \<^verbatim>\<open>WEBHOOK_SECRET\<close>; the shop domain
  and the access token only address the remote API, which is a function from the call
  made to what \<^verbatim>\<open>fetch\<close> gives back: \<open>None\<close> when the promise rejects, otherwise the
  response's \<^verbatim>\<open>ok\<close> flag and its body as \<^verbatim>\<open>response.json()\<close> reads it (\<open>None\<close> when
  that rejects). The handler returns what it sent, or \<open>Threw\<close> when an exception left
  it before it sent anything, and the remote calls it issued, in order. The two
  revisions of the file differ in the tag filter (and in logging, which is left out).
\<close>

record request =
  req_method :: string
  hmac_header :: "string option"
  raw_body :: string

record env =
  WEBHOOK_SECRET :: "string option"

datatype call = GET_order json | GET_draft json | PUT_order json json

record response =
  ok :: bool
  body :: "json option"

type_synonym remote = "call \<Rightarrow> response option"

datatype outcome = Responded nat string | Threw

datatype revision = Untagged | Tagged

definition wanted :: "string list" where
  "wanted = [''Delivery-Location-Id'', ''Delivery-Date'', ''Checkout-Method'']"

text \<open>\<^verbatim>\<open>wanted.has(a?.name)\<close>\<close>

definition wanted_has :: "json option \<Rightarrow> bool" where
  "wanted_has v = (case v of Some (JStr s) \<Rightarrow> s \<in> set wanted | _ \<Rightarrow> False)"

definition falsy_str :: "string option \<Rightarrow> bool" where
  "falsy_str v = (case v of None \<Rightarrow> True | Some s \<Rightarrow> s = [])"

definition str_of :: "string option \<Rightarrow> string" where
  "str_of v = (case v of None \<Rightarrow> [] | Some s \<Rightarrow> s)"

text \<open>
  Step 5 and 6: merge with the order's attributes and write back when they differ. The
  path of the write is the template literal over \<^verbatim>\<open>orderId\<close> that the order fetch has
  already evaluated without an exception.
\<close>

definition merge_and_update ::
  "platform \<Rightarrow> remote \<Rightarrow> json \<Rightarrow> json \<Rightarrow> json list \<Rightarrow> call list \<Rightarrow> outcome \<times> call list" where
  "merge_and_update P remote orderId fullOrder draftAttrs calls =
     (let existing = or_else (get_prop (get_prop (Some fullOrder) ''order'') ''note_attributes'') (JArr [])
      in case spread existing of
           None \<Rightarrow> (Threw, calls)
         | Some out \<Rightarrow>
             let merged = mergeNoteAttributes out draftAttrs
             in if \<not> differs P (Some existing) (Some (JArr merged))
                then (Responded 200 ''No changes needed'', calls)
                else
                  let put = PUT_order orderId
                        (JObj [(''order'', JObj [(''id'', orderId), (''note_attributes'', JArr merged)])])
                  in case remote put of
                       None \<Rightarrow> (Threw, calls @ [put])
                     | Some putResp \<Rightarrow> (Responded 200 ''Done'', calls @ [put]))"

text \<open>The allow-list filter on the draft's attributes.\<close>

definition copy_from_draft ::
  "platform \<Rightarrow> remote \<Rightarrow> json \<Rightarrow> json \<Rightarrow> json \<Rightarrow> call list \<Rightarrow> outcome \<times> call list" where
  "copy_from_draft P remote orderId fullOrder draft calls =
     (case array_filter
             (or_else (get_prop (get_prop (Some draft) ''draft_order'') ''note_attributes'') (JArr []))
             (\<lambda>a. wanted_has (attr_name a)) of
        None \<Rightarrow> (Threw, calls)
      | Some draftAttrs \<Rightarrow>
          if draftAttrs = [] then (Responded 200 ''No Zapiet attrs on draft'', calls)
          else merge_and_update P remote orderId fullOrder draftAttrs calls)"

text \<open>
  The \<^verbatim>\<open>draft_order_id\<close> step and the draft fetch. The path of the fetch is a template
  literal over \<^verbatim>\<open>draftId\<close>, evaluated before the call is made.
\<close>

definition reconcile ::
  "platform \<Rightarrow> remote \<Rightarrow> json \<Rightarrow> json \<Rightarrow> call list \<Rightarrow> outcome \<times> call list" where
  "reconcile P remote orderId fullOrder calls =
     (case get_prop (get_prop (Some fullOrder) ''order'') ''draft_order_id'' of
        None \<Rightarrow> (Responded 200 ''No draft link'', calls)
      | Some draftId \<Rightarrow>
          if \<not> truthy draftId then (Responded 200 ''No draft link'', calls)
          else if \<not> converts draftId then (Threw, calls)
          else
            let get = GET_draft draftId
            in case remote get of
                 None \<Rightarrow> (Threw, calls @ [get])
               | Some dResp \<Rightarrow>
                   if \<not> ok dResp then (Responded 200 ''GET draft failed'', calls @ [get])
                   else (case body dResp of
                           None \<Rightarrow> (Threw, calls @ [get])
                         | Some draft \<Rightarrow>
                             copy_from_draft P remote orderId fullOrder draft (calls @ [get])))"

text \<open>
  The tag filter of the second revision. \<^verbatim>\<open>(tags || "").toLowerCase()\<close> throws when
  \<^verbatim>\<open>tags\<close> is truthy and not a string.
\<close>

definition tag_filter ::
  "platform \<Rightarrow> remote \<Rightarrow> json \<Rightarrow> json \<Rightarrow> call list \<Rightarrow> outcome \<times> call list" where
  "tag_filter P remote orderId fullOrder calls =
     (case or_else (get_prop (get_prop (Some fullOrder) ''order'') ''tags'') (JStr '''') of
        JStr s \<Rightarrow>
          let tags = toLowerCase s
          in if \<not> str_includes tags ''samita-wholesale''
             then (Responded 200 ''Not a Samita order'', calls)
             else reconcile P remote orderId fullOrder calls
      | v \<Rightarrow> (Threw, calls))"

definition handler ::
  "revision \<Rightarrow> platform \<Rightarrow> env \<Rightarrow> remote \<Rightarrow> request \<Rightarrow> outcome \<times> call list" where
  "handler rv P e remote req =
     (if req_method req \<noteq> ''POST'' then (Responded 200 ''OK'', [])
      else
        let raw = raw_body req;
            secret = WEBHOOK_SECRET e;
            hmacHeader = hmac_header req
        in if falsy_str secret \<or> falsy_str hmacHeader
           then (Responded 401 ''Missing secret or hmac'', [])
           else
             let digest = hmac_sha256_base64 P (str_of secret) raw
             in if \<not> timingSafeEqual (Some digest) hmacHeader
                then (Responded 401 ''Bad HMAC'', [])
                else (case JSON_parse P raw of
                        None \<Rightarrow> (Responded 400 ''Bad JSON'', [])
                      | Some order \<Rightarrow>
                          (case get_prop (Some order) ''id'' of
                             None \<Rightarrow> (Responded 200 ''No order id'', [])
                           | Some orderId \<Rightarrow>
                               if \<not> truthy orderId then (Responded 200 ''No order id'', [])
                               else if \<not> converts orderId then (Threw, [])
                               else
                                 let get = GET_order orderId
                                 in case remote get of
                                      None \<Rightarrow> (Threw, [get])
                                    | Some oResp \<Rightarrow>
                                        if \<not> ok oResp
                                        then (Responded 200 ''GET order failed'', [get])
                                        else (case body oResp of
                                                None \<Rightarrow> (Threw, [get])
                                              | Some fullOrder \<Rightarrow>
                                                  (case rv of
                                                     Untagged \<Rightarrow>
                                                       reconcile P remote orderId fullOrder [get]
                                                   | Tagged \<Rightarrow>
                                                       tag_filter P remote orderId fullOrder [get])))))"

section \<open>Notions the statements use\<close>

text \<open>
  An entry has a name when \<^verbatim>\<open>a?.name\<close> is truthy: both loops of
  \<open>mergeNoteAttributes\<close> pass over every other entry. \<open>fresh a\<close> is the object
  \<^verbatim>\<open>{ name: a.name, value: a.value ?? "" }\<close> that the loop writes for an incoming
  entry \<open>a\<close>, and \<open>slot E a\<close> is \<^verbatim>\<open>idx.get(a.name)\<close> for the map built from \<open>E\<close>.
\<close>

definition named :: "json \<Rightarrow> bool" where
  "named a = (case attr_name a of None \<Rightarrow> False | Some n \<Rightarrow> truthy n)"

definition fresh :: "json \<Rightarrow> json" where
  "fresh a = (case attr_name a of None \<Rightarrow> a | Some n \<Rightarrow> new_attr n a)"

definition slot :: "json list \<Rightarrow> json \<Rightarrow> nat option" where
  "slot E a = (case attr_name a of None \<Rightarrow> None | Some n \<Rightarrow> Map_get (index_names E) n)"

text \<open>
  An entry is keyed when its name is truthy and a primitive, so that the map can find
  it again by value. Position \<open>i\<close> is the last of its name when no later entry of the
  list has the same \<^verbatim>\<open>name\<close>.
\<close>

definition keyed :: "json \<Rightarrow> bool" where
  "keyed e = (case attr_name e of None \<Rightarrow> False | Some n \<Rightarrow> truthy n \<and> \<not> by_reference n)"

definition last_named :: "json list \<Rightarrow> nat \<Rightarrow> bool" where
  "last_named E i = (\<forall>j. i < j \<and> j < length E \<longrightarrow> attr_name (E ! j) \<noteq> attr_name (E ! i))"

text \<open>The last position of a truthy name in a list: what the finished map holds.\<close>

fun last_pos :: "json \<Rightarrow> json list \<Rightarrow> nat option" where
  "last_pos n [] = None"
| "last_pos n (x # xs) =
     (case last_pos n xs of
        Some j \<Rightarrow> Some (Suc j)
      | None \<Rightarrow> if attr_name x = Some n \<and> truthy n then Some 0 else None)"

text \<open>
  The loop without its appends, and the incoming entries that overwrite the head of a
  list: two auxiliary functions of the proofs.
\<close>

definition over_step :: "json list \<Rightarrow> json \<Rightarrow> json list \<Rightarrow> json list" where
  "over_step E a out =
     (if named a then (case slot E a of None \<Rightarrow> out | Some i \<Rightarrow> out[i := fresh a]) else out)"

definition hits0 :: "json \<Rightarrow> json list \<Rightarrow> json list \<Rightarrow> json list" where
  "hits0 e es D = [a\<leftarrow>D. attr_name a = attr_name e \<and> keyed e \<and> attr_name e \<notin> attr_name ` set es]"

section \<open>Example data\<close>

text \<open>The attribute \<^verbatim>\<open>{ name: n, value: v }\<close> with a string for its name.\<close>

definition attribute :: "string \<Rightarrow> json \<Rightarrow> json" where
  "attribute n v = JObj [(''name'', JStr n), (''value'', v)]"

section \<open>Notions of the claims about the handler\<close>

text \<open>
  The status the handler sent, if it sent one. A request is authentic when the secret is
  configured, the signature header is present, and the header is the MAC of the raw body
  under the secret.
\<close>

fun status_of :: "outcome \<Rightarrow> nat option" where
  "status_of (Responded s m) = Some s"
| "status_of Threw = None"

definition authentic :: "platform \<Rightarrow> env \<Rightarrow> request \<Rightarrow> bool" where
  "authentic P e req =
     (case WEBHOOK_SECRET e of
        None \<Rightarrow> False
      | Some s \<Rightarrow>
          (case hmac_header req of
             None \<Rightarrow> False
           | Some h \<Rightarrow> s \<noteq> [] \<and> h \<noteq> [] \<and> hmac_sha256_base64 P s (raw_body req) = h))"

text \<open>An outcome that is the status 200 or an exception: what every step after the parse gives.\<close>

definition ack_or_threw :: "outcome \<times> call list \<Rightarrow> bool" where
  "ack_or_threw r = (case fst r of Responded s m \<Rightarrow> s = 200 | Threw \<Rightarrow> True)"

text \<open>
  Stand-ins for the runtime in the examples: a MAC that is a function of secret and
  body, a parser that knows the two bodies the examples send, a remote API that rejects
  every call, and one that answers every call with an order that carries the marker tag
  and no draft link.
\<close>

definition test_platform :: platform where
  \<open>test_platform =
     \<lparr> hmac_sha256_base64 = (\<lambda>secret raw. ''mac('' @ secret @ '','' @ raw @ '')''),
       JSON_parse = (\<lambda>raw.
         if raw = ''{"id":1}'' then Some (JObj [(''id'', JNum 1)])
         else if raw = ''{"id":{"toString":1}}'' then Some (JObj [(''id'', JObj [(''toString'', JNum 1)])])
         else None),
       JSON_stringify = (\<lambda>v. '''') \<rparr>\<close>

definition test_env :: env where
  "test_env = \<lparr> WEBHOOK_SECRET = Some ''s3cret'' \<rparr>"

definition test_request :: request where
  \<open>test_request =
     \<lparr> req_method = ''POST'',
       hmac_header = Some ''mac(s3cret,{"id":1})'',
       raw_body = ''{"id":1}'' \<rparr>\<close>

definition unconvertible_request :: request where
  \<open>unconvertible_request =
     \<lparr> req_method = ''POST'',
       hmac_header = Some ''mac(s3cret,{"id":{"toString":1}})'',
       raw_body = ''{"id":{"toString":1}}'' \<rparr>\<close>

definition samita_order :: json where
  "samita_order =
     JObj [(''order'',
       JObj [(''id'', JNum 1),
             (''tags'', JStr ''Wholesale, SAMITA-Wholesale''),
             (''draft_order_id'', JNull),
             (''note_attributes'', JArr [attribute ''Gift'' (JStr ''yes'')])])]"

definition no_reply :: remote where
  "no_reply c = None"

definition samita_shop :: remote where
  "samita_shop c = Some \<lparr> ok = True, body = Some samita_order \<rparr>"

definition retail_order :: json where
  "retail_order = JObj [(''order'', JObj [(''id'', JNum 1), (''tags'', JStr ''retail'')])]"

definition retail_shop :: remote where
  "retail_shop c = Some \<lparr> ok = True, body = Some retail_order \<rparr>"

text \<open>
  The handler from \<^verbatim>\<open>JSON.parse\<close> on, which is what an authentic POST reaches: an
  auxiliary function of the proofs.
\<close>

definition after_auth :: "revision \<Rightarrow> platform \<Rightarrow> remote \<Rightarrow> request \<Rightarrow> outcome \<times> call list" where
  "after_auth rv P remote req =
     (case JSON_parse P (raw_body req) of
        None \<Rightarrow> (Responded 400 ''Bad JSON'', [])
      | Some order \<Rightarrow>
          (case get_prop (Some order) ''id'' of
             None \<Rightarrow> (Responded 200 ''No order id'', [])
           | Some orderId \<Rightarrow>
               if \<not> truthy orderId then (Responded 200 ''No order id'', [])
               else if \<not> converts orderId then (Threw, [])
               else
                 (case remote (GET_order orderId) of
                    None \<Rightarrow> (Threw, [GET_order orderId])
                  | Some oResp \<Rightarrow>
                      if \<not> ok oResp then (Responded 200 ''GET order failed'', [GET_order orderId])
                      else (case body oResp of
                              None \<Rightarrow> (Threw, [GET_order orderId])
                            | Some fullOrder \<Rightarrow>
                                (case rv of
                                   Untagged \<Rightarrow> reconcile P remote orderId fullOrder [GET_order orderId]
                                 | Tagged \<Rightarrow> tag_filter P remote orderId fullOrder [GET_order orderId])))))"

section \<open>The merge in closed form\<close>

lemma index_step_apply:
  "index_step (k, x) m n = (if attr_name x = Some n \<and> truthy n then Some k else m n)"
  by (auto simp: index_step_def split: option.splits)

lemma fold_index_step:
  "fold index_step (enumerate k xs) m n =
     (case last_pos n xs of Some j \<Rightarrow> Some (k + j) | None \<Rightarrow> m n)"
proof (induction xs arbitrary: k m)
  case Nil
  then show ?case by simp
next
  case (Cons x xs)
  show ?case
    by (simp add: Cons.IH index_step_apply split: option.splits)
qed

lemma index_names_last_pos: "index_names E n = last_pos n E"
  by (simp add: index_names_def fold_index_step split: option.splits)

lemma last_pos_None_iff:
  "last_pos n xs = None \<longleftrightarrow> (\<forall>x\<in>set xs. \<not> (attr_name x = Some n \<and> truthy n))"
  by (induction xs) (auto split: option.splits)

lemma last_pos_SomeD:
  "last_pos n xs = Some i \<Longrightarrow>
     i < length xs \<and> attr_name (xs ! i) = Some n \<and> truthy n \<and>
     (\<forall>j. i < j \<and> j < length xs \<longrightarrow> attr_name (xs ! j) \<noteq> Some n)"
proof (induction xs arbitrary: i)
  case Nil
  then show ?case by simp
next
  case (Cons x xs)
  show ?case
  proof (cases "last_pos n xs")
    case None
    with Cons.prems have i: "i = 0" and x: "attr_name x = Some n" "truthy n"
      by (auto split: if_splits)
    have "\<forall>y\<in>set xs. attr_name y \<noteq> Some n"
      using None x by (auto simp: last_pos_None_iff)
    then have "\<forall>j. j < length xs \<longrightarrow> attr_name (xs ! j) \<noteq> Some n"
      by simp
    then show ?thesis using i x by (auto simp: nth_Cons split: nat.splits)
  next
    case (Some k)
    with Cons.prems have i: "i = Suc k" by simp
    from Cons.IH[OF Some] show ?thesis unfolding i
      by (auto simp: nth_Cons split: nat.splits)
  qed
qed

lemma merge_step_eq:
  "merge_step (index_names E) a out =
     (if named a then (case slot E a of None \<Rightarrow> out @ [fresh a] | Some i \<Rightarrow> out[i := fresh a])
      else out)"
  by (auto simp: merge_step_def named_def slot_def fresh_def split: option.splits)

lemma slot_less: "slot E a = Some i \<Longrightarrow> i < length E"
  by (auto simp: slot_def Map_get_def index_names_last_pos split: option.splits if_splits
      dest: last_pos_SomeD)

lemma length_over_step [simp]: "length (over_step E a out) = length out"
  by (simp add: over_step_def split: option.splits)

lemma length_fold_over [simp]: "length (fold (over_step E) D out) = length out"
  by (induction D arbitrary: out) auto

lemma over_step_simps:
  "\<not> named a \<Longrightarrow> over_step E a out = out"
  "named a \<Longrightarrow> slot E a = None \<Longrightarrow> over_step E a out = out"
  "named a \<Longrightarrow> slot E a = Some i \<Longrightarrow> over_step E a out = out[i := fresh a]"
  by (simp_all add: over_step_def)

lemma merge_step_simps:
  "\<not> named a \<Longrightarrow> merge_step (index_names E) a out = out"
  "named a \<Longrightarrow> slot E a = None \<Longrightarrow> merge_step (index_names E) a out = out @ [fresh a]"
  "named a \<Longrightarrow> slot E a = Some i \<Longrightarrow> merge_step (index_names E) a out = out[i := fresh a]"
  by (simp_all add: merge_step_eq)

lemma fold_merge_step_split:
  "length xs = length E \<Longrightarrow>
   fold (merge_step (index_names E)) D (xs @ ys) =
     fold (over_step E) D xs @ ys @ map fresh [a\<leftarrow>D. named a \<and> slot E a = None]"
proof (induction D arbitrary: xs ys)
  case Nil
  then show ?case by simp
next
  case (Cons a D)
  show ?case
  proof (cases "named a")
    case False
    then show ?thesis using Cons by (simp add: merge_step_simps over_step_simps)
  next
    case True
    show ?thesis
    proof (cases "slot E a")
      case None
      have "fold (merge_step (index_names E)) D (xs @ (ys @ [fresh a])) =
            fold (over_step E) D xs @ (ys @ [fresh a]) @ map fresh [a\<leftarrow>D. named a \<and> slot E a = None]"
        using Cons.prems by (rule Cons.IH)
      then show ?thesis using True None by (simp add: merge_step_simps over_step_simps)
    next
      case (Some i)
      then have i: "i < length xs" using slot_less Cons.prems by simp
      have "fold (merge_step (index_names E)) D (xs[i := fresh a] @ ys) =
            fold (over_step E) D (xs[i := fresh a]) @ ys @ map fresh [a\<leftarrow>D. named a \<and> slot E a = None]"
        using Cons.prems by (intro Cons.IH) simp
      then show ?thesis using True Some i
        by (simp add: merge_step_simps over_step_simps list_update_append)
    qed
  qed
qed

lemma merge_closed:
  "mergeNoteAttributes E D =
     fold (over_step E) D E @ map fresh [a\<leftarrow>D. named a \<and> slot E a = None]"
  using fold_merge_step_split[of E E D "[]"] by (simp add: mergeNoteAttributes_def)

lemma nth_fold_over:
  "i < length xs \<Longrightarrow>
   fold (over_step E) D xs ! i =
     (if [a\<leftarrow>D. named a \<and> slot E a = Some i] = [] then xs ! i
      else fresh (last [a\<leftarrow>D. named a \<and> slot E a = Some i]))"
proof (induction D arbitrary: xs rule: rev_induct)
  case Nil
  then show ?case by simp
next
  case (snoc a D)
  show ?case
  proof (cases "named a \<and> slot E a = Some i")
    case True
    then show ?thesis using snoc.prems
      by (simp add: over_step_simps)
  next
    case False
    have "over_step E a (fold (over_step E) D xs) ! i = fold (over_step E) D xs ! i"
      using False snoc.prems by (auto simp: over_step_def split: option.splits)
    moreover have "[b\<leftarrow>D @ [a]. named b \<and> slot E b = Some i] = [b\<leftarrow>D. named b \<and> slot E b = Some i]"
      using False by simp
    ultimately show ?thesis using snoc.IH[OF snoc.prems] by (simp del: filter_append)
  qed
qed

lemma last_pos_Some_iff:
  "last_pos n xs = Some i \<longleftrightarrow>
     i < length xs \<and> attr_name (xs ! i) = Some n \<and> truthy n \<and>
     (\<forall>j. i < j \<and> j < length xs \<longrightarrow> attr_name (xs ! j) \<noteq> Some n)"
  (is "?L \<longleftrightarrow> ?R")
proof
  assume ?L
  then show ?R by (rule last_pos_SomeD)
next
  assume R: ?R
  then have "xs ! i \<in> set xs" by simp
  with R have "last_pos n xs \<noteq> None"
    unfolding last_pos_None_iff by blast
  then obtain k where k: "last_pos n xs = Some k" by blast
  note K = last_pos_SomeD[OF k]
  have "\<not> k < i" using R K by blast
  moreover have "\<not> i < k" using R K by blast
  ultimately show ?L using k by simp
qed

lemma wanted_hasD:
  "wanted_has (attr_name a) \<Longrightarrow> \<exists>s. attr_name a = Some (JStr s) \<and> s \<in> set wanted \<and> s \<noteq> []"
  by (auto simp: wanted_has_def wanted_def split: option.splits json.splits)

lemma wanted_named: "wanted_has (attr_name a) \<Longrightarrow> named a"
  by (auto simp: named_def dest: wanted_hasD)

lemma slot_wanted_Some:
  assumes "wanted_has (attr_name a)" "i < length E"
  shows "slot E a = Some i \<longleftrightarrow>
    attr_name a = attr_name (E ! i) \<and>
    (\<forall>j. i < j \<and> j < length E \<longrightarrow> attr_name (E ! j) \<noteq> attr_name (E ! i))"
proof -
  from wanted_hasD[OF assms(1)] obtain s where s: "attr_name a = Some (JStr s)" "s \<noteq> []"
    by blast
  have "slot E a = last_pos (JStr s) E"
    by (simp add: slot_def s Map_get_def index_names_last_pos)
  then show ?thesis using s assms(2) by (auto simp: last_pos_Some_iff)
qed

lemma slot_wanted_None:
  assumes "wanted_has (attr_name a)"
  shows "slot E a = None \<longleftrightarrow> attr_name a \<notin> attr_name ` set E"
proof -
  from wanted_hasD[OF assms(1)] obtain s where s: "attr_name a = Some (JStr s)" "s \<noteq> []"
    by blast
  have "slot E a = last_pos (JStr s) E"
    by (simp add: slot_def s Map_get_def index_names_last_pos)
  then show ?thesis using s by (auto simp: last_pos_None_iff image_iff)
qed

lemma merge_wanted_nth:
  assumes D: "\<forall>a\<in>set D. wanted_has (attr_name a)" and i: "i < length E"
  shows "mergeNoteAttributes E D ! i =
     (if (\<exists>a\<in>set D. attr_name a = attr_name (E ! i)) \<and>
         (\<forall>j. i < j \<and> j < length E \<longrightarrow> attr_name (E ! j) \<noteq> attr_name (E ! i))
      then fresh (last [a\<leftarrow>D. attr_name a = attr_name (E ! i)])
      else E ! i)"
proof -
  let ?lastp = "\<forall>j. i < j \<and> j < length E \<longrightarrow> attr_name (E ! j) \<noteq> attr_name (E ! i)"
  have hit: "[a\<leftarrow>D. named a \<and> slot E a = Some i] = [a\<leftarrow>D. attr_name a = attr_name (E ! i) \<and> ?lastp]"
    by (rule filter_cong[OF refl]) (use D i in \<open>auto simp: slot_wanted_Some wanted_named\<close>)
  have "mergeNoteAttributes E D ! i = fold (over_step E) D E ! i"
    using i by (simp add: merge_closed nth_append)
  also have "\<dots> = (if [a\<leftarrow>D. named a \<and> slot E a = Some i] = [] then E ! i
      else fresh (last [a\<leftarrow>D. named a \<and> slot E a = Some i]))"
    using i by (rule nth_fold_over)
  also have "\<dots> = (if (\<exists>a\<in>set D. attr_name a = attr_name (E ! i)) \<and> ?lastp
      then fresh (last [a\<leftarrow>D. attr_name a = attr_name (E ! i)]) else E ! i)"
    unfolding hit by (cases ?lastp) (auto simp: filter_empty_conv)
  finally show ?thesis .
qed

lemma merge_wanted_drop:
  assumes D: "\<forall>a\<in>set D. wanted_has (attr_name a)"
  shows "drop (length E) (mergeNoteAttributes E D) =
     map fresh [a\<leftarrow>D. attr_name a \<notin> attr_name ` set E]"
proof -
  have "[a\<leftarrow>D. named a \<and> slot E a = None] = [a\<leftarrow>D. attr_name a \<notin> attr_name ` set E]"
    by (rule filter_cong[OF refl]) (use D in \<open>auto simp: slot_wanted_None wanted_named\<close>)
  then show ?thesis by (simp add: merge_closed)
qed

lemma ex1: "mergeNoteAttributes
       [JObj [(''name'', JStr ''Gift''), (''value'', JStr ''yes'')]]
       [JObj [(''name'', JStr ''Delivery-Date''), (''value'', JStr ''2024-05-01'')]] =
     [JObj [(''name'', JStr ''Gift''), (''value'', JStr ''yes'')],
      JObj [(''name'', JStr ''Delivery-Date''), (''value'', JStr ''2024-05-01'')]]"
  by (simp add: mergeNoteAttributes_def index_names_def index_step_def merge_step_def
      attr_name_def new_attr_def nullish_or_def Map_get_def)

lemma ex2: "mergeNoteAttributes
       [JObj [(''name'', JStr ''Delivery-Date''), (''value'', JStr ''old'')]]
       [JObj [(''name'', JStr ''Delivery-Date''), (''value'', JStr ''new'')]] =
     [JObj [(''name'', JStr ''Delivery-Date''), (''value'', JStr ''new'')]]"
  by (simp add: mergeNoteAttributes_def index_names_def index_step_def merge_step_def
      attr_name_def new_attr_def nullish_or_def Map_get_def)

lemma slot_Some_iff:
  assumes "i < length E"
  shows "named a \<and> slot E a = Some i \<longleftrightarrow>
    attr_name a = attr_name (E ! i) \<and> keyed (E ! i) \<and> last_named E i"
proof (cases "attr_name a")
  case None
  then show ?thesis by (auto simp: named_def slot_def keyed_def split: option.splits)
next
  case (Some n)
  show ?thesis
  proof (cases "by_reference n")
    case True
    then show ?thesis using Some
      by (auto simp: named_def slot_def keyed_def Map_get_def split: option.splits)
  next
    case False
    have sl: "slot E a = last_pos n E"
      by (simp add: slot_def Some Map_get_def False index_names_last_pos)
    have na: "named a = truthy n"
      by (simp add: named_def Some)
    have ke: "attr_name (E ! i) = Some n \<Longrightarrow> keyed (E ! i) = truthy n"
      by (simp add: keyed_def False)
    have eq: "attr_name a = attr_name (E ! i) \<longleftrightarrow> attr_name (E ! i) = Some n"
      using Some by auto
    have ln: "attr_name (E ! i) = Some n \<Longrightarrow>
        last_named E i = (\<forall>j. i < j \<and> j < length E \<longrightarrow> attr_name (E ! j) \<noteq> Some n)"
      by (simp add: last_named_def)
    show ?thesis unfolding sl na eq last_pos_Some_iff using assms ke ln by blast
  qed
qed

lemma merge_nth:
  assumes i: "i < length E"
  shows "mergeNoteAttributes E D ! i =
     (if keyed (E ! i) \<and> last_named E i \<and> (\<exists>a\<in>set D. attr_name a = attr_name (E ! i))
      then fresh (last [a\<leftarrow>D. attr_name a = attr_name (E ! i)])
      else E ! i)"
proof -
  have hit: "[a\<leftarrow>D. named a \<and> slot E a = Some i] =
      [a\<leftarrow>D. attr_name a = attr_name (E ! i) \<and> keyed (E ! i) \<and> last_named E i]"
    by (rule filter_cong[OF refl]) (use i in \<open>simp add: slot_Some_iff\<close>)
  have "mergeNoteAttributes E D ! i = fold (over_step E) D E ! i"
    using i by (simp add: merge_closed nth_append)
  also have "\<dots> = (if [a\<leftarrow>D. named a \<and> slot E a = Some i] = [] then E ! i
      else fresh (last [a\<leftarrow>D. named a \<and> slot E a = Some i]))"
    using i by (rule nth_fold_over)
  also have "\<dots> = (if keyed (E ! i) \<and> last_named E i \<and> (\<exists>a\<in>set D. attr_name a = attr_name (E ! i))
      then fresh (last [a\<leftarrow>D. attr_name a = attr_name (E ! i)]) else E ! i)"
    unfolding hit by (cases "keyed (E ! i) \<and> last_named E i") (auto simp: filter_empty_conv)
  finally show ?thesis .
qed

lemma attr_name_fresh: "attr_name (fresh a) = attr_name a"
  by (auto simp: fresh_def attr_name_def new_attr_def split: option.splits)

lemma attr_name_merge_nth:
  assumes "i < length E"
  shows "attr_name (mergeNoteAttributes E D ! i) = attr_name (E ! i)"
proof (cases "keyed (E ! i) \<and> last_named E i \<and> (\<exists>a\<in>set D. attr_name a = attr_name (E ! i))")
  case True
  then have ne: "[a\<leftarrow>D. attr_name a = attr_name (E ! i)] \<noteq> []"
    by (auto simp: filter_empty_conv)
  have "last [a\<leftarrow>D. attr_name a = attr_name (E ! i)] \<in> set [a\<leftarrow>D. attr_name a = attr_name (E ! i)]"
    using ne by (rule last_in_set)
  then have "attr_name (last [a\<leftarrow>D. attr_name a = attr_name (E ! i)]) = attr_name (E ! i)"
    by simp
  then show ?thesis using True assms by (simp add: merge_nth attr_name_fresh)
next
  case False
  show ?thesis by (subst merge_nth[OF assms]) (simp only: False if_False)
qed

lemma length_merge:
  "length (mergeNoteAttributes E D) = length E + length [a\<leftarrow>D. named a \<and> slot E a = None]"
  by (simp add: merge_closed)

lemma names_preserved:
  "map attr_name (take (length E) (mergeNoteAttributes E D)) = map attr_name E"
  by (rule nth_equalityI) (simp_all add: length_merge attr_name_merge_nth)

lemma last_filter_nth:
  assumes k: "k < length xs" and P: "P (xs ! k)"
    and later: "\<forall>j. k < j \<and> j < length xs \<longrightarrow> \<not> P (xs ! j)"
  shows "last (filter P xs) = xs ! k"
proof -
  have "\<forall>x\<in>set (drop (Suc k) xs). \<not> P x"
  proof
    fix x assume "x \<in> set (drop (Suc k) xs)"
    then obtain m where m: "m < length (drop (Suc k) xs)" "x = drop (Suc k) xs ! m"
      by (auto simp: in_set_conv_nth)
    then have "x = xs ! (Suc k + m)" "Suc k + m < length xs" using k by auto
    then show "\<not> P x" using later by auto
  qed
  then have e: "filter P (drop (Suc k) xs) = []"
    by (simp add: filter_empty_conv)
  have "filter P xs = filter P (take k xs @ xs ! k # drop (Suc k) xs)"
    using id_take_nth_drop[OF k] by simp
  also have "\<dots> = filter P (take k xs) @ [xs ! k]"
    using P e by simp
  finally show ?thesis by simp
qed

lemma named_cong: "attr_name a = attr_name b \<Longrightarrow> named a = named b"
  by (simp add: named_def)

lemma keyed_cong: "attr_name a = attr_name b \<Longrightarrow> keyed a = keyed b"
  by (simp add: keyed_def)

lemma slot_cong: "attr_name a = attr_name b \<Longrightarrow> slot E a = slot E b"
  by (simp add: slot_def)

lemma slot_None_iff:
  "named a \<Longrightarrow> slot E a = None \<longleftrightarrow> \<not> keyed a \<or> attr_name a \<notin> attr_name ` set E"
  by (cases "attr_name a")
     (auto simp: named_def slot_def keyed_def Map_get_def index_names_last_pos
       last_pos_None_iff image_iff)

lemma merge_nth_appended:
  assumes "i < length (mergeNoteAttributes E D)" "length E \<le> i"
  shows "mergeNoteAttributes E D ! i = fresh ([a\<leftarrow>D. named a \<and> slot E a = None] ! (i - length E))"
    and "i - length E < length [a\<leftarrow>D. named a \<and> slot E a = None]"
  using assms by (simp_all add: merge_closed nth_append)

text \<open>the entry a merged list holds at the last position of a name is the last draft entry of that name\<close>

lemma merge_fixed_entry:
  assumes i: "i < length (mergeNoteAttributes E D)"
    and ln: "last_named (mergeNoteAttributes E D) i"
    and ke: "keyed (mergeNoteAttributes E D ! i)"
    and ex: "\<exists>a\<in>set D. attr_name a = attr_name (mergeNoteAttributes E D ! i)"
  shows "fresh (last [a\<leftarrow>D. attr_name a = attr_name (mergeNoteAttributes E D ! i)]) =
    mergeNoteAttributes E D ! i"
proof (cases "i < length E")
  case True
  let ?M = "mergeNoteAttributes E D"
  have nm: "attr_name (?M ! i) = attr_name (E ! i)"
    using True by (rule attr_name_merge_nth)
  have "last_named E i"
    unfolding last_named_def
  proof (intro allI impI)
    fix j assume j: "i < j \<and> j < length E"
    then have "j < length ?M" by (simp add: length_merge)
    with ln j have "attr_name (?M ! j) \<noteq> attr_name (?M ! i)" by (simp add: last_named_def)
    then show "attr_name (E ! j) \<noteq> attr_name (E ! i)"
      using j True by (simp add: attr_name_merge_nth)
  qed
  moreover have "keyed (E ! i)" using ke keyed_cong[OF nm] by simp
  ultimately show ?thesis using ex True unfolding nm by (simp add: merge_nth)
next
  case False
  let ?M = "mergeNoteAttributes E D"
  let ?N = "[a\<leftarrow>D. named a \<and> slot E a = None]"
  let ?k = "i - length E"
  from False have le: "length E \<le> i" by simp
  have Mi: "?M ! i = fresh (?N ! ?k)" and k: "?k < length ?N"
    using merge_nth_appended[OF i le] by simp_all
  let ?nu = "attr_name (?N ! ?k)"
  have nu: "attr_name (?M ! i) = ?nu" by (simp add: Mi attr_name_fresh)
  have Nk: "?N ! ?k \<in> set ?N" using k by (rule nth_mem)
  then have Nk': "named (?N ! ?k)" "slot E (?N ! ?k) = None" by simp_all
  have f: "[a\<leftarrow>D. attr_name a = ?nu] = [a\<leftarrow>?N. attr_name a = ?nu]"
    unfolding filter_filter
    by (rule filter_cong[OF refl]) (use Nk' named_cong slot_cong in metis)
  have later: "\<forall>j. ?k < j \<and> j < length ?N \<longrightarrow> \<not> attr_name (?N ! j) = ?nu"
  proof (intro allI impI)
    fix j assume j: "?k < j \<and> j < length ?N"
    then have a: "i < length E + j" "length E + j < length ?M"
      using le by (auto simp: length_merge)
    have "?M ! (length E + j) = fresh (?N ! j)"
      using j by (simp add: merge_closed nth_append)
    moreover have "attr_name (?M ! (length E + j)) \<noteq> attr_name (?M ! i)"
      using ln a by (simp add: last_named_def)
    ultimately show "\<not> attr_name (?N ! j) = ?nu"
      by (simp add: nu attr_name_fresh)
  qed
  have l: "last [a\<leftarrow>?N. attr_name a = ?nu] = ?N ! ?k"
    using k _ later by (rule last_filter_nth) simp
  have "fresh (last [a\<leftarrow>D. attr_name a = attr_name (?M ! i)]) =
      fresh (last [a\<leftarrow>D. attr_name a = ?nu])"
    by (simp only: nu)
  also have "\<dots> = fresh (last [a\<leftarrow>?N. attr_name a = ?nu])"
    by (simp only: f)
  also have "\<dots> = fresh (?N ! ?k)"
    by (simp only: l)
  also have "\<dots> = ?M ! i"
    by (simp only: Mi)
  finally show ?thesis .
qed

lemma merge_again_nth:
  assumes i: "i < length (mergeNoteAttributes E D)"
  shows "mergeNoteAttributes (mergeNoteAttributes E D) D ! i = mergeNoteAttributes E D ! i"
proof -
  let ?M = "mergeNoteAttributes E D"
  show ?thesis
  proof (cases "keyed (?M ! i) \<and> last_named ?M i \<and> (\<exists>a\<in>set D. attr_name a = attr_name (?M ! i))")
    case True
    then show ?thesis using merge_fixed_entry[OF i] by (simp add: merge_nth[OF i])
  next
    case False
    show ?thesis by (subst merge_nth[OF i]) (simp only: False if_False)
  qed
qed

lemma name_in_merge:
  assumes a: "a \<in> set D" and n: "named a"
  shows "\<not> keyed a \<or> attr_name a \<in> attr_name ` set (mergeNoteAttributes E D)"
proof (cases "slot E a")
  case None
  then have "fresh a \<in> set (mergeNoteAttributes E D)"
    using a n by (simp add: merge_closed)
  then have "attr_name (fresh a) \<in> attr_name ` set (mergeNoteAttributes E D)"
    by (rule imageI)
  then show ?thesis by (simp add: attr_name_fresh)
next
  case (Some i)
  then have i: "i < length E" by (rule slot_less)
  then have "attr_name a = attr_name (E ! i)"
    using slot_Some_iff[OF i, of a] n Some by simp
  then have "attr_name a = attr_name (mergeNoteAttributes E D ! i)"
    using i by (simp add: attr_name_merge_nth)
  moreover have "mergeNoteAttributes E D ! i \<in> set (mergeNoteAttributes E D)"
    using i by (simp add: length_merge)
  ultimately show ?thesis by (metis imageI)
qed

lemma merge_idem:
  assumes D: "\<forall>a\<in>set D. named a \<longrightarrow> keyed a"
  shows "mergeNoteAttributes (mergeNoteAttributes E D) D = mergeNoteAttributes E D"
proof -
  let ?M = "mergeNoteAttributes E D"
  have "[a\<leftarrow>D. named a \<and> slot ?M a = None] = []"
    unfolding filter_empty_conv
  proof (intro ballI)
    fix a assume a: "a \<in> set D"
    show "\<not> (named a \<and> slot ?M a = None)"
    proof
      assume h: "named a \<and> slot ?M a = None"
      then have k: "keyed a" using D a by blast
      from h have "\<not> keyed a \<or> attr_name a \<notin> attr_name ` set ?M"
        using slot_None_iff[of a ?M] by blast
      moreover have "\<not> keyed a \<or> attr_name a \<in> attr_name ` set ?M"
        using h by (intro name_in_merge[OF a]) simp
      ultimately show False using k by blast
    qed
  qed
  then have len: "length (mergeNoteAttributes ?M D) = length ?M"
    by (simp add: length_merge)
  show ?thesis
    by (rule nth_equalityI[OF len]) (simp add: len merge_again_nth)
qed

lemma wanted_keyed: "wanted_has (attr_name a) \<Longrightarrow> keyed a"
  by (auto simp: keyed_def dest: wanted_hasD)

lemma last_named_Suc: "last_named (e # es) (Suc j) = last_named es j"
proof
  assume h: "last_named (e # es) (Suc j)"
  show "last_named es j"
    unfolding last_named_def
  proof (intro allI impI)
    fix k assume "j < k \<and> k < length es"
    then have "Suc j < Suc k \<and> Suc k < length (e # es)" by simp
    with h have "attr_name ((e # es) ! Suc k) \<noteq> attr_name ((e # es) ! Suc j)"
      unfolding last_named_def by blast
    then show "attr_name (es ! k) \<noteq> attr_name (es ! j)" by simp
  qed
next
  assume h: "last_named es j"
  show "last_named (e # es) (Suc j)"
    unfolding last_named_def
  proof (intro allI impI)
    fix k assume k: "Suc j < k \<and> k < length (e # es)"
    then obtain k' where k': "k = Suc k'" by (cases k) auto
    with k have "j < k' \<and> k' < length es" by simp
    with h have "attr_name (es ! k') \<noteq> attr_name (es ! j)"
      unfolding last_named_def by blast
    then show "attr_name ((e # es) ! k) \<noteq> attr_name ((e # es) ! Suc j)"
      by (simp add: k')
  qed
qed

lemma last_named_0: "last_named (e # es) 0 = (attr_name e \<notin> attr_name ` set es)"
proof
  assume h: "last_named (e # es) 0"
  show "attr_name e \<notin> attr_name ` set es"
  proof
    assume "attr_name e \<in> attr_name ` set es"
    then obtain k where k: "k < length es" "attr_name (es ! k) = attr_name e"
      by (auto simp: in_set_conv_nth)
    then have "0 < Suc k \<and> Suc k < length (e # es)" by simp
    with h have "attr_name ((e # es) ! Suc k) \<noteq> attr_name ((e # es) ! 0)"
      unfolding last_named_def by blast
    with k show False by simp
  qed
next
  assume h: "attr_name e \<notin> attr_name ` set es"
  show "last_named (e # es) 0"
    unfolding last_named_def
  proof (intro allI impI)
    fix k assume k: "0 < k \<and> k < length (e # es)"
    then obtain k' where k': "k = Suc k'" by (cases k) auto
    with k have "es ! k' \<in> set es" by simp
    with h have "attr_name (es ! k') \<noteq> attr_name e" by (metis imageI)
    then show "attr_name ((e # es) ! k) \<noteq> attr_name ((e # es) ! 0)"
      by (simp add: k')
  qed
qed

lemma over_Cons:
  "fold (over_step (e # es)) D (e # es) =
     (if hits0 e es D = [] then e else fresh (last (hits0 e es D))) # fold (over_step es) D es"
proof (rule nth_equalityI)
  show "length (fold (over_step (e # es)) D (e # es)) =
    length ((if hits0 e es D = [] then e else fresh (last (hits0 e es D))) # fold (over_step es) D es)"
    by simp
next
  fix i assume "i < length (fold (over_step (e # es)) D (e # es))"
  then have i: "i < length (e # es)" by simp
  show "fold (over_step (e # es)) D (e # es) ! i =
    ((if hits0 e es D = [] then e else fresh (last (hits0 e es D))) # fold (over_step es) D es) ! i"
  proof (cases i)
    case 0
    have "[a\<leftarrow>D. named a \<and> slot (e # es) a = Some 0] = hits0 e es D"
      unfolding hits0_def
      by (rule filter_cong[OF refl]) (simp add: slot_Some_iff last_named_0)
    then show ?thesis unfolding 0 by (simp add: nth_fold_over)
  next
    case (Suc j)
    then have j: "j < length es" using i by simp
    have "[a\<leftarrow>D. named a \<and> slot (e # es) a = Some (Suc j)] = [a\<leftarrow>D. named a \<and> slot es a = Some j]"
      by (rule filter_cong[OF refl]) (use j in \<open>simp add: slot_Some_iff last_named_Suc\<close>)
    then show ?thesis unfolding Suc using j by (simp add: nth_fold_over)
  qed
qed

lemma unnamed_not_keyed_name:
  "\<not> named e \<Longrightarrow> keyed x \<Longrightarrow> attr_name x \<noteq> attr_name e"
  by (auto simp: named_def keyed_def split: option.splits)

lemma hits0_insert:
  assumes "\<not> named e"
  shows "hits0 x (E1 @ e # E2) D = hits0 x (E1 @ E2) D"
  unfolding hits0_def
  by (rule filter_cong[OF refl]) (use unnamed_not_keyed_name[OF assms] in auto)

lemma hits0_unnamed: "\<not> named e \<Longrightarrow> hits0 e es D = []"
  by (auto simp: hits0_def filter_empty_conv named_def keyed_def split: option.splits)

lemma over_insert:
  assumes e: "\<not> named e"
  shows "fold (over_step (E1 @ e # E2)) D (E1 @ e # E2) =
    take (length E1) (fold (over_step (E1 @ E2)) D (E1 @ E2)) @ e #
    drop (length E1) (fold (over_step (E1 @ E2)) D (E1 @ E2))"
proof (induction E1)
  case Nil
  then show ?case by (simp add: over_Cons hits0_unnamed[OF e])
next
  case (Cons x E1)
  have "fold (over_step ((x # E1) @ e # E2)) D ((x # E1) @ e # E2) =
      fold (over_step (x # (E1 @ e # E2))) D (x # (E1 @ e # E2))" by simp
  also have "\<dots> = (if hits0 x (E1 @ e # E2) D = [] then x else fresh (last (hits0 x (E1 @ e # E2) D))) #
      fold (over_step (E1 @ e # E2)) D (E1 @ e # E2)"
    by (rule over_Cons)
  finally show ?case
    by (simp add: Cons.IH hits0_insert[OF e] over_Cons)
qed

lemma news_insert:
  assumes e: "\<not> named e"
  shows "[a\<leftarrow>D. named a \<and> slot (E1 @ e # E2) a = None] = [a\<leftarrow>D. named a \<and> slot (E1 @ E2) a = None]"
proof (rule filter_cong[OF refl])
  fix a assume "a \<in> set D"
  have "named a \<Longrightarrow> attr_name a \<noteq> attr_name e"
    using e by (auto simp: named_def)
  then show "(named a \<and> slot (E1 @ e # E2) a = None) = (named a \<and> slot (E1 @ E2) a = None)"
    by (auto simp: slot_None_iff)
qed

lemma merge_insert_unnamed:
  assumes e: "\<not> named e"
  shows "mergeNoteAttributes (E1 @ e # E2) D =
    take (length E1) (mergeNoteAttributes (E1 @ E2) D) @ e #
    drop (length E1) (mergeNoteAttributes (E1 @ E2) D)"
  by (simp add: merge_closed over_insert[OF e] news_insert[OF e])

lemma merge_filter_named:
  "mergeNoteAttributes E D = mergeNoteAttributes E [a\<leftarrow>D. named a]"
proof -
  have "fold (merge_step idx) D out = fold (merge_step idx) [a\<leftarrow>D. named a] out" for idx out
    by (induction D arbitrary: out)
       (auto simp: merge_step_def named_def split: option.splits)
  then show ?thesis by (simp add: mergeNoteAttributes_def)
qed

lemma count_names_merge:
  assumes D: "\<forall>a\<in>set D. wanted_has (attr_name a)" and n: "\<nu> \<in> attr_name ` set E"
  shows "length [x\<leftarrow>mergeNoteAttributes E D. attr_name x = \<nu>] = length [x\<leftarrow>E. attr_name x = \<nu>]"
proof -
  let ?M = "mergeNoteAttributes E D"
  have cnt: "length [x\<leftarrow>xs. attr_name x = \<nu>] = length [y\<leftarrow>map attr_name xs. y = \<nu>]" for xs
    by (simp add: filter_map comp_def)
  have "[x\<leftarrow>drop (length E) ?M. attr_name x = \<nu>] = []"
    using n by (auto simp: merge_wanted_drop[OF D] filter_empty_conv attr_name_fresh)
  moreover have "length [x\<leftarrow>take (length E) ?M. attr_name x = \<nu>] = length [x\<leftarrow>E. attr_name x = \<nu>]"
    unfolding cnt names_preserved ..
  moreover have "?M = take (length E) ?M @ drop (length E) ?M" by simp
  ultimately show ?thesis by (metis append_Nil2 filter_append)
qed

section \<open>Claims about the merge\<close>

text \<open>
  C1. For every list \<open>E\<close> of existing attributes and every list \<open>D\<close> of filtered draft
  attributes (every name is on the allow-list), \<open>mergeNoteAttributes\<close> is a name-keyed
  upsert: the entries of \<open>E\<close> keep their positions and names; position \<open>i\<close> of \<open>E\<close> holds
  \<^verbatim>\<open>{ name, value }\<close> of the last draft attribute of its name when \<open>D\<close> has one and \<open>i\<close>
  is the last position of that name in \<open>E\<close>, and the entry of \<open>E\<close> otherwise; no name of
  \<open>E\<close> gains an occurrence; the draft attributes whose names do not occur in \<open>E\<close> follow
  at the end, in incoming order. The two examples of the specification are included.
\<close>

theorem mergeNoteAttributes_upsert:
  assumes D: "\<forall>a\<in>set D. wanted_has (attr_name a)"
  shows "map attr_name (take (length E) (mergeNoteAttributes E D)) = map attr_name E \<and>
    (\<forall>i<length E. mergeNoteAttributes E D ! i =
       (if (\<exists>a\<in>set D. attr_name a = attr_name (E ! i)) \<and> last_named E i
        then fresh (last [a\<leftarrow>D. attr_name a = attr_name (E ! i)])
        else E ! i)) \<and>
    (\<forall>\<nu>\<in>attr_name ` set E.
       length [x\<leftarrow>mergeNoteAttributes E D. attr_name x = \<nu>] = length [x\<leftarrow>E. attr_name x = \<nu>]) \<and>
    drop (length E) (mergeNoteAttributes E D) = map fresh [a\<leftarrow>D. attr_name a \<notin> attr_name ` set E] \<and>
    mergeNoteAttributes
       [JObj [(''name'', JStr ''Gift''), (''value'', JStr ''yes'')]]
       [JObj [(''name'', JStr ''Delivery-Date''), (''value'', JStr ''2024-05-01'')]] =
     [JObj [(''name'', JStr ''Gift''), (''value'', JStr ''yes'')],
      JObj [(''name'', JStr ''Delivery-Date''), (''value'', JStr ''2024-05-01'')]] \<and>
    mergeNoteAttributes
       [JObj [(''name'', JStr ''Delivery-Date''), (''value'', JStr ''old'')]]
       [JObj [(''name'', JStr ''Delivery-Date''), (''value'', JStr ''new'')]] =
     [JObj [(''name'', JStr ''Delivery-Date''), (''value'', JStr ''new'')]]"
proof (intro conjI)
  show "map attr_name (take (length E) (mergeNoteAttributes E D)) = map attr_name E"
    by (rule names_preserved)
  show "\<forall>i<length E. mergeNoteAttributes E D ! i =
       (if (\<exists>a\<in>set D. attr_name a = attr_name (E ! i)) \<and> last_named E i
        then fresh (last [a\<leftarrow>D. attr_name a = attr_name (E ! i)])
        else E ! i)"
    using merge_wanted_nth[OF D] by (simp add: last_named_def)
  show "\<forall>\<nu>\<in>attr_name ` set E.
       length [x\<leftarrow>mergeNoteAttributes E D. attr_name x = \<nu>] = length [x\<leftarrow>E. attr_name x = \<nu>]"
    using count_names_merge[OF D] by blast
  show "drop (length E) (mergeNoteAttributes E D) = map fresh [a\<leftarrow>D. attr_name a \<notin> attr_name ` set E]"
    by (rule merge_wanted_drop[OF D])
qed (rule ex1 ex2)+


lemma attr_name_attribute [simp]: "attr_name (attribute n v) = Some (JStr n)"
  by (simp add: attribute_def attr_name_def)

lemma fresh_attribute: "n \<noteq> [] \<Longrightarrow> fresh (attribute n v) = attribute n (nullish_or (Some v) (JStr []))"
  by (simp add: fresh_def attribute_def attr_name_def new_attr_def)

lemma last_named_last: "Suc i = length E \<Longrightarrow> last_named E i"
  by (auto simp: last_named_def)

text \<open>C1 at a list with one name to overwrite and one to append.\<close>

theorem mergeNoteAttributes_upsert_witness:
  "mergeNoteAttributes
     [attribute ''Gift'' (JStr ''yes''), attribute ''Delivery-Date'' (JStr ''old'')]
     [attribute ''Delivery-Date'' (JStr ''new''), attribute ''Checkout-Method'' (JStr ''pickup'')] ! 1 =
     attribute ''Delivery-Date'' (JStr ''new'') \<and>
   drop 2 (mergeNoteAttributes
     [attribute ''Gift'' (JStr ''yes''), attribute ''Delivery-Date'' (JStr ''old'')]
     [attribute ''Delivery-Date'' (JStr ''new''), attribute ''Checkout-Method'' (JStr ''pickup'')]) =
     [attribute ''Checkout-Method'' (JStr ''pickup'')]"
proof -
  let ?E = "[attribute ''Gift'' (JStr ''yes''), attribute ''Delivery-Date'' (JStr ''old'')]"
  let ?D = "[attribute ''Delivery-Date'' (JStr ''new''), attribute ''Checkout-Method'' (JStr ''pickup'')]"
  have h: "\<forall>a\<in>set ?D. wanted_has (attr_name a)"
    by (simp add: wanted_has_def wanted_def)
  have l: "last_named ?E 1" by (rule last_named_last) simp
  note T = mergeNoteAttributes_upsert[OF h, of ?E]
  from T have "\<forall>i<length ?E. mergeNoteAttributes ?E ?D ! i =
       (if (\<exists>a\<in>set ?D. attr_name a = attr_name (?E ! i)) \<and> last_named ?E i
        then fresh (last [a\<leftarrow>?D. attr_name a = attr_name (?E ! i)])
        else ?E ! i)" by blast
  then have "mergeNoteAttributes ?E ?D ! 1 =
       (if (\<exists>a\<in>set ?D. attr_name a = attr_name (?E ! 1)) \<and> last_named ?E 1
        then fresh (last [a\<leftarrow>?D. attr_name a = attr_name (?E ! 1)])
        else ?E ! 1)" by simp
  then have a: "mergeNoteAttributes ?E ?D ! 1 = attribute ''Delivery-Date'' (JStr ''new'')"
    using l by (simp add: fresh_attribute nullish_or_def)
  from T have "drop (length ?E) (mergeNoteAttributes ?E ?D) =
      map fresh [a\<leftarrow>?D. attr_name a \<notin> attr_name ` set ?E]" by blast
  then have b: "drop 2 (mergeNoteAttributes ?E ?D) = [attribute ''Checkout-Method'' (JStr ''pickup'')]"
    by (simp add: fresh_attribute nullish_or_def numeral_2_eq_2)
  from a b show ?thesis by blast
qed

text \<open>
  C3. Merging the same filtered draft attributes a second time changes nothing: the
  result is the same list, entry by entry, and \<open>differs\<close> sees no difference between the
  merged list and the list merged again.
\<close>

theorem merge_idempotent:
  assumes D: "\<forall>a\<in>set D. wanted_has (attr_name a)"
  shows "mergeNoteAttributes (mergeNoteAttributes E D) D = mergeNoteAttributes E D \<and>
    \<not> differs P (Some (JArr (mergeNoteAttributes E D)))
         (Some (JArr (mergeNoteAttributes (mergeNoteAttributes E D) D)))"
proof -
  have "\<forall>a\<in>set D. named a \<longrightarrow> keyed a"
    using D by (auto intro: wanted_keyed)
  then have "mergeNoteAttributes (mergeNoteAttributes E D) D = mergeNoteAttributes E D"
    by (rule merge_idem)
  then show ?thesis by (simp add: differs_def)
qed

text \<open>C3 where the first merge overwrites one entry and appends two of one name.\<close>

theorem merge_idempotent_witness:
  "mergeNoteAttributes
     (mergeNoteAttributes [attribute ''Delivery-Date'' (JStr ''old'')]
        [attribute ''Delivery-Date'' (JStr ''new''), attribute ''Checkout-Method'' JNull,
         attribute ''Checkout-Method'' (JStr ''pickup'')])
     [attribute ''Delivery-Date'' (JStr ''new''), attribute ''Checkout-Method'' JNull,
      attribute ''Checkout-Method'' (JStr ''pickup'')] =
   [attribute ''Delivery-Date'' (JStr ''new''), attribute ''Checkout-Method'' (JStr ''''),
    attribute ''Checkout-Method'' (JStr ''pickup'')]"
proof -
  let ?E = "[attribute ''Delivery-Date'' (JStr ''old'')]"
  let ?D = "[attribute ''Delivery-Date'' (JStr ''new''), attribute ''Checkout-Method'' JNull,
      attribute ''Checkout-Method'' (JStr ''pickup'')]"
  have h: "\<forall>a\<in>set ?D. wanted_has (attr_name a)"
    by (simp add: wanted_has_def wanted_def)
  have m: "mergeNoteAttributes ?E ?D =
      [attribute ''Delivery-Date'' (JStr ''new''), attribute ''Checkout-Method'' (JStr ''''),
       attribute ''Checkout-Method'' (JStr ''pickup'')]"
    by (simp add: mergeNoteAttributes_def index_names_def index_step_def merge_step_def
        attr_name_def new_attr_def nullish_or_def Map_get_def attribute_def)
  from merge_idempotent[OF h, of ?E]
  have "mergeNoteAttributes (mergeNoteAttributes ?E ?D) ?D = mergeNoteAttributes ?E ?D"
    by blast
  then show ?thesis by (simp only: m)
qed

text \<open>
  C8. Attributes with no name are ignored on both sides. An incoming entry whose
  \<^verbatim>\<open>name\<close> is missing or falsy contributes nothing: the merge is the merge of the
  named incoming entries. An existing entry \<open>e\<close> with no name stays where it is and the
  rest of the result is what the merge gives without it.
\<close>

theorem nameless_ignored:
  "mergeNoteAttributes E D = mergeNoteAttributes E [a\<leftarrow>D. named a] \<and>
   (\<not> named e \<longrightarrow>
      mergeNoteAttributes (E1 @ e # E2) D =
        take (length E1) (mergeNoteAttributes (E1 @ E2) D) @ e #
        drop (length E1) (mergeNoteAttributes (E1 @ E2) D))"
  using merge_filter_named[of E D] merge_insert_unnamed[of e E1 E2 D] by blast

text \<open>C8 at an existing \<^verbatim>\<open>null\<close> entry between two named ones.\<close>

theorem nameless_ignored_witness:
  "mergeNoteAttributes [attribute ''Gift'' (JStr ''yes''), JNull, attribute ''Delivery-Date'' (JStr ''old'')]
     [attribute ''Delivery-Date'' (JStr ''new'')] =
   [attribute ''Gift'' (JStr ''yes''), JNull, attribute ''Delivery-Date'' (JStr ''new'')]"
proof -
  let ?D = "[attribute ''Delivery-Date'' (JStr ''new'')]"
  have n: "\<not> named JNull" by (simp add: named_def attr_name_def)
  have m: "mergeNoteAttributes ([attribute ''Gift'' (JStr ''yes'')] @ [attribute ''Delivery-Date'' (JStr ''old'')]) ?D =
      [attribute ''Gift'' (JStr ''yes''), attribute ''Delivery-Date'' (JStr ''new'')]"
    by (simp add: mergeNoteAttributes_def index_names_def index_step_def merge_step_def
        attr_name_def new_attr_def nullish_or_def Map_get_def attribute_def)
  from nameless_ignored[of _ ?D JNull "[attribute ''Gift'' (JStr ''yes'')]" "[attribute ''Delivery-Date'' (JStr ''old'')]"] n
  have "mergeNoteAttributes ([attribute ''Gift'' (JStr ''yes'')] @ JNull # [attribute ''Delivery-Date'' (JStr ''old'')]) ?D =
        take (length [attribute ''Gift'' (JStr ''yes'')])
          (mergeNoteAttributes ([attribute ''Gift'' (JStr ''yes'')] @ [attribute ''Delivery-Date'' (JStr ''old'')]) ?D) @ JNull #
        drop (length [attribute ''Gift'' (JStr ''yes'')])
          (mergeNoteAttributes ([attribute ''Gift'' (JStr ''yes'')] @ [attribute ''Delivery-Date'' (JStr ''old'')]) ?D)"
    by blast
  then show ?thesis unfolding m by simp
qed

text \<open>
  C10. When several existing entries share a name, every one but the last is left as
  it is, whatever comes in; the last one, when its name is a truthy primitive that an
  incoming entry shares, becomes \<^verbatim>\<open>{ name, value }\<close> of the last incoming entry of that
  name.
\<close>

theorem last_duplicate_overwritten:
  "(\<forall>i j. i < j \<and> j < length E \<and> attr_name (E ! i) = attr_name (E ! j) \<longrightarrow>
      mergeNoteAttributes E D ! i = E ! i) \<and>
   (\<forall>i<length E. keyed (E ! i) \<and> last_named E i \<and> (\<exists>a\<in>set D. attr_name a = attr_name (E ! i)) \<longrightarrow>
      mergeNoteAttributes E D ! i = fresh (last [a\<leftarrow>D. attr_name a = attr_name (E ! i)]))"
proof (intro conjI allI impI)
  fix i j assume h: "i < j \<and> j < length E \<and> attr_name (E ! i) = attr_name (E ! j)"
  then have i: "i < length E" by simp
  have "\<not> last_named E i" using h unfolding last_named_def by metis
  then show "mergeNoteAttributes E D ! i = E ! i"
    by (simp add: merge_nth[OF i])
next
  fix i assume i: "i < length E"
    and "keyed (E ! i) \<and> last_named E i \<and> (\<exists>a\<in>set D. attr_name a = attr_name (E ! i))"
  then show "mergeNoteAttributes E D ! i = fresh (last [a\<leftarrow>D. attr_name a = attr_name (E ! i)])"
    by (simp add: merge_nth[OF i])
qed

text \<open>C10 at two existing entries of one name.\<close>

theorem last_duplicate_overwritten_witness:
  "mergeNoteAttributes [attribute ''Delivery-Date'' (JStr ''first''), attribute ''Delivery-Date'' (JStr ''second'')]
     [attribute ''Delivery-Date'' (JStr ''new'')] ! 0 = attribute ''Delivery-Date'' (JStr ''first'') \<and>
   mergeNoteAttributes [attribute ''Delivery-Date'' (JStr ''first''), attribute ''Delivery-Date'' (JStr ''second'')]
     [attribute ''Delivery-Date'' (JStr ''new'')] ! 1 = attribute ''Delivery-Date'' (JStr ''new'')"
proof -
  let ?E = "[attribute ''Delivery-Date'' (JStr ''first''), attribute ''Delivery-Date'' (JStr ''second'')]"
  let ?D = "[attribute ''Delivery-Date'' (JStr ''new'')]"
  note T = last_duplicate_overwritten[of ?E ?D]
  from T have "(0::nat) < 1 \<and> 1 < length ?E \<and> attr_name (?E ! 0) = attr_name (?E ! 1) \<longrightarrow>
      mergeNoteAttributes ?E ?D ! 0 = ?E ! 0" by blast
  then have a: "mergeNoteAttributes ?E ?D ! 0 = attribute ''Delivery-Date'' (JStr ''first'')"
    by simp
  have l: "last_named ?E 1" by (rule last_named_last) simp
  have k: "keyed (?E ! 1)" by (simp add: keyed_def)
  from T have "1 < length ?E \<longrightarrow> keyed (?E ! 1) \<and> last_named ?E 1 \<and> (\<exists>a\<in>set ?D. attr_name a = attr_name (?E ! 1)) \<longrightarrow>
      mergeNoteAttributes ?E ?D ! 1 = fresh (last [a\<leftarrow>?D. attr_name a = attr_name (?E ! 1)])" by blast
  then have b: "mergeNoteAttributes ?E ?D ! 1 = attribute ''Delivery-Date'' (JStr ''new'')"
    using l k by (simp add: fresh_attribute nullish_or_def)
  from a b show ?thesis by blast
qed

lemma written_entry:
  assumes i: "i < length (mergeNoteAttributes E D)"
    and w: "length E \<le> i \<or> (\<exists>a\<in>set D. named a \<and> slot E a = Some i)"
  shows "\<exists>a\<in>set D. named a \<and> mergeNoteAttributes E D ! i = fresh a"
proof (cases "length E \<le> i")
  case True
  let ?N = "[a\<leftarrow>D. named a \<and> slot E a = None]"
  have "mergeNoteAttributes E D ! i = fresh (?N ! (i - length E))" and k: "i - length E < length ?N"
    using merge_nth_appended[OF i True] by simp_all
  moreover have "?N ! (i - length E) \<in> set ?N" using k by (rule nth_mem)
  ultimately show ?thesis by auto
next
  case False
  then have i': "i < length E" by simp
  let ?H = "[a\<leftarrow>D. named a \<and> slot E a = Some i]"
  from w False have ne: "?H \<noteq> []" by (auto simp: filter_empty_conv)
  then have "last ?H \<in> set ?H" by (rule last_in_set)
  moreover have "mergeNoteAttributes E D ! i = fresh (last ?H)"
    using i' ne by (simp add: merge_closed nth_append nth_fold_over)
  ultimately show ?thesis by auto
qed

lemma untouched_entry:
  assumes i: "i < length E" and w: "\<not> (\<exists>a\<in>set D. named a \<and> slot E a = Some i)"
  shows "mergeNoteAttributes E D ! i = E ! i"
proof -
  from w have "[a\<leftarrow>D. named a \<and> slot E a = Some i] = []"
    by (auto simp: filter_empty_conv)
  then show ?thesis using i by (simp add: merge_closed nth_append nth_fold_over)
qed

lemma entry_cases:
  assumes i: "i < length (mergeNoteAttributes E D)"
  shows "(i < length E \<and> mergeNoteAttributes E D ! i = E ! i) \<or>
    (\<exists>a\<in>set D. named a \<and> mergeNoteAttributes E D ! i = fresh a)"
proof (cases "length E \<le> i \<or> (\<exists>a\<in>set D. named a \<and> slot E a = Some i)")
  case True
  then show ?thesis using written_entry[OF i] by blast
next
  case False
  then show ?thesis using untouched_entry[of i E D] by auto
qed

text \<open>
  C4. The list the handler merges is the draft's \<^verbatim>\<open>note_attributes\<close> after the
  allow-list filter. In the merged list the entries of the order keep their positions
  and names; every entry is either the order's entry at that position, unchanged, or
  \<^verbatim>\<open>{ name, value }\<close> of a draft attribute whose name is one of the three on the
  allow-list; so an entry of the result with any other name is an unchanged entry of
  the order.
\<close>

theorem handler_merge_allow_list:
  assumes F: "array_filter (JArr D) (\<lambda>a. wanted_has (attr_name a)) = Some F"
  shows "map attr_name (take (length E) (mergeNoteAttributes E F)) = map attr_name E \<and>
    (\<forall>i<length (mergeNoteAttributes E F).
       (i < length E \<and> mergeNoteAttributes E F ! i = E ! i) \<or>
       (\<exists>a\<in>set D. mergeNoteAttributes E F ! i = fresh a \<and>
          attr_name (mergeNoteAttributes E F ! i) = attr_name a \<and>
          (\<exists>s\<in>set wanted. attr_name a = Some (JStr s)))) \<and>
    (\<forall>i<length (mergeNoteAttributes E F).
       \<not> wanted_has (attr_name (mergeNoteAttributes E F ! i)) \<longrightarrow>
       i < length E \<and> mergeNoteAttributes E F ! i = E ! i) \<and>
    set wanted = {''Delivery-Location-Id'', ''Delivery-Date'', ''Checkout-Method''}"
proof -
  let ?M = "mergeNoteAttributes E F"
  from F have Fd: "F = [a\<leftarrow>D. wanted_has (attr_name a)]" by simp
  have cases: "(i < length E \<and> ?M ! i = E ! i) \<or>
       (\<exists>a\<in>set D. ?M ! i = fresh a \<and> attr_name (?M ! i) = attr_name a \<and>
          (\<exists>s\<in>set wanted. attr_name a = Some (JStr s)))" if i: "i < length ?M" for i
    using entry_cases[OF i]
  proof
    assume "i < length E \<and> ?M ! i = E ! i"
    then show ?thesis by blast
  next
    assume "\<exists>a\<in>set F. named a \<and> ?M ! i = fresh a"
    then obtain a where a: "a \<in> set F" "?M ! i = fresh a" by blast
    then have "a \<in> set D" "wanted_has (attr_name a)" by (simp_all add: Fd)
    moreover from wanted_hasD[OF this(2)] have "\<exists>s\<in>set wanted. attr_name a = Some (JStr s)"
      by blast
    ultimately show ?thesis using a by (auto simp: attr_name_fresh)
  qed
  have other: "i < length E \<and> ?M ! i = E ! i"
    if i: "i < length ?M" and n: "\<not> wanted_has (attr_name (?M ! i))" for i
    using cases[OF i] n by (auto simp: wanted_has_def)
  show ?thesis
    using cases other by (simp add: names_preserved wanted_def)
qed

text \<open>C4 at a draft with one attribute on the allow-list and one off it.\<close>

theorem handler_merge_allow_list_witness:
  "array_filter (JArr [attribute ''Delivery-Date'' (JStr ''2024-05-01''), attribute ''Unrelated'' (JStr ''x'')])
     (\<lambda>a. wanted_has (attr_name a)) = Some [attribute ''Delivery-Date'' (JStr ''2024-05-01'')] \<and>
   map attr_name (take 1 (mergeNoteAttributes [attribute ''Gift'' (JStr ''yes'')]
       [attribute ''Delivery-Date'' (JStr ''2024-05-01'')])) = [Some (JStr ''Gift'')]"
proof -
  have h: "array_filter (JArr [attribute ''Delivery-Date'' (JStr ''2024-05-01''), attribute ''Unrelated'' (JStr ''x'')])
     (\<lambda>a. wanted_has (attr_name a)) = Some [attribute ''Delivery-Date'' (JStr ''2024-05-01'')]"
    by (simp add: wanted_has_def wanted_def)
  from handler_merge_allow_list[OF h, of "[attribute ''Gift'' (JStr ''yes'')]"]
  have "map attr_name (take (length [attribute ''Gift'' (JStr ''yes'')])
      (mergeNoteAttributes [attribute ''Gift'' (JStr ''yes'')] [attribute ''Delivery-Date'' (JStr ''2024-05-01'')])) =
      map attr_name [attribute ''Gift'' (JStr ''yes'')]"
    by blast
  then show ?thesis using h by simp
qed

text \<open>
  C9 as the code has it. An incoming entry with a name and a \<^verbatim>\<open>null\<close> or missing value
  is written with the value \<^verbatim>\<open>""\<close>, appended or in place. Every entry of the result that
  the loop wrote is \<^verbatim>\<open>{ name, value }\<close> of a named incoming entry, its value is never
  \<^verbatim>\<open>null\<close>, it is \<^verbatim>\<open>""\<close> when the incoming value is \<^verbatim>\<open>null\<close> or missing, and it is the
  incoming string when that is a string.
\<close>

theorem incoming_value_defaulted:
  "(attr_name a = Some n \<and> truthy n \<and>
      (get_prop (Some a) ''value'' = None \<or> get_prop (Some a) ''value'' = Some JNull) \<longrightarrow>
      merge_step idx a out =
        (case Map_get idx n of
           None \<Rightarrow> out @ [JObj [(''name'', n), (''value'', JStr '''')]]
         | Some i \<Rightarrow> out[i := JObj [(''name'', n), (''value'', JStr '''')]])) \<and>
   (i < length (mergeNoteAttributes E D) \<and>
      (length E \<le> i \<or> (\<exists>b\<in>set D. named b \<and> slot E b = Some i)) \<longrightarrow>
      (\<exists>b\<in>set D. \<exists>m v. attr_name b = Some m \<and> truthy m \<and>
         v = nullish_or (get_prop (Some b) ''value'') (JStr '''') \<and>
         mergeNoteAttributes E D ! i = JObj [(''name'', m), (''value'', v)] \<and>
         v \<noteq> JNull \<and>
         (get_prop (Some b) ''value'' = None \<or> get_prop (Some b) ''value'' = Some JNull \<longrightarrow> v = JStr '''') \<and>
         (\<forall>s. get_prop (Some b) ''value'' = Some (JStr s) \<longrightarrow> v = JStr s)))"
proof (intro conjI impI)
  assume "attr_name a = Some n \<and> truthy n \<and>
      (get_prop (Some a) ''value'' = None \<or> get_prop (Some a) ''value'' = Some JNull)"
  then show "merge_step idx a out =
        (case Map_get idx n of
           None \<Rightarrow> out @ [JObj [(''name'', n), (''value'', JStr '''')]]
         | Some i \<Rightarrow> out[i := JObj [(''name'', n), (''value'', JStr '''')]])"
    by (auto simp: merge_step_def new_attr_def nullish_or_def split: option.splits)
next
  assume h: "i < length (mergeNoteAttributes E D) \<and>
      (length E \<le> i \<or> (\<exists>b\<in>set D. named b \<and> slot E b = Some i))"
  then obtain b where b: "b \<in> set D" "named b" "mergeNoteAttributes E D ! i = fresh b"
    using written_entry[of i E D] by blast
  from b(2) obtain m where m: "attr_name b = Some m" "truthy m"
    by (auto simp: named_def split: option.splits)
  let ?v = "nullish_or (get_prop (Some b) ''value'') (JStr '''')"
  have "mergeNoteAttributes E D ! i = JObj [(''name'', m), (''value'', ?v)]"
    using b(3) m by (simp add: fresh_def new_attr_def)
  moreover have "?v \<noteq> JNull"
    by (auto simp: nullish_or_def split: option.splits json.splits)
  moreover have "get_prop (Some b) ''value'' = None \<or> get_prop (Some b) ''value'' = Some JNull \<longrightarrow> ?v = JStr ''''"
    by (auto simp: nullish_or_def)
  moreover have "\<forall>s. get_prop (Some b) ''value'' = Some (JStr s) \<longrightarrow> ?v = JStr s"
    by (auto simp: nullish_or_def)
  ultimately show "\<exists>b\<in>set D. \<exists>m v. attr_name b = Some m \<and> truthy m \<and>
         v = nullish_or (get_prop (Some b) ''value'') (JStr '''') \<and>
         mergeNoteAttributes E D ! i = JObj [(''name'', m), (''value'', v)] \<and>
         v \<noteq> JNull \<and>
         (get_prop (Some b) ''value'' = None \<or> get_prop (Some b) ''value'' = Some JNull \<longrightarrow> v = JStr '''') \<and>
         (\<forall>s. get_prop (Some b) ''value'' = Some (JStr s) \<longrightarrow> v = JStr s)"
    using b(1) m by blast
qed

text \<open>C9 as amended, at an appended entry whose incoming value is \<^verbatim>\<open>null\<close>.\<close>

theorem incoming_value_defaulted_witness:
  "mergeNoteAttributes [] [attribute ''Delivery-Date'' JNull] ! 0 =
     JObj [(''name'', JStr ''Delivery-Date''), (''value'', JStr '''')]"
proof -
  let ?D = "[attribute ''Delivery-Date'' JNull]"
  have l: "length (mergeNoteAttributes [] ?D) = 1"
    by (simp add: mergeNoteAttributes_def index_names_def merge_step_def Map_get_def)
  from incoming_value_defaulted[of _ _ _ _ 0 "[]" ?D] l
  have "\<exists>b\<in>set ?D. \<exists>m v. attr_name b = Some m \<and> truthy m \<and>
         v = nullish_or (get_prop (Some b) ''value'') (JStr '''') \<and>
         mergeNoteAttributes [] ?D ! 0 = JObj [(''name'', m), (''value'', v)] \<and>
         v \<noteq> JNull \<and>
         (get_prop (Some b) ''value'' = None \<or> get_prop (Some b) ''value'' = Some JNull \<longrightarrow> v = JStr '''') \<and>
         (\<forall>s. get_prop (Some b) ''value'' = Some (JStr s) \<longrightarrow> v = JStr s)"
    by simp
  then show ?thesis by (auto simp: attribute_def nullish_or_def attr_name_def)
qed

text \<open>
  C9 as stated fails: a draft attribute whose value is the number 5 is appended with the
  number 5, which is not a string.
\<close>

theorem incoming_value_not_string:
  "\<not> (\<exists>s. get_prop (Some (mergeNoteAttributes [] [attribute ''Delivery-Date'' (JNum 5)] ! 0)) ''value'' =
            Some (JStr s))"
  by (simp add: mergeNoteAttributes_def index_names_def merge_step_def Map_get_def
      attribute_def attr_name_def new_attr_def nullish_or_def)

section \<open>Claims about the handler\<close>

lemma ack_merge_and_update: "ack_or_threw (merge_and_update P remote orderId fullOrder draftAttrs calls)"
  by (simp add: merge_and_update_def ack_or_threw_def Let_def split: option.splits)

lemma ack_copy_from_draft: "ack_or_threw (copy_from_draft P remote orderId fullOrder draft calls)"
  using ack_merge_and_update
  by (simp add: copy_from_draft_def split: option.splits) (simp add: ack_or_threw_def)

lemma ack_reconcile: "ack_or_threw (reconcile P remote orderId fullOrder calls)"
  using ack_copy_from_draft
  by (simp add: reconcile_def Let_def split: option.splits) (simp add: ack_or_threw_def)

lemma ack_tag_filter: "ack_or_threw (tag_filter P remote orderId fullOrder calls)"
  using ack_reconcile
  by (simp add: tag_filter_def Let_def split: json.splits) (simp add: ack_or_threw_def)


lemma authentic_iff:
  "authentic P e req \<longleftrightarrow>
     \<not> falsy_str (WEBHOOK_SECRET e) \<and> \<not> falsy_str (hmac_header req) \<and>
     timingSafeEqual (Some (hmac_sha256_base64 P (str_of (WEBHOOK_SECRET e)) (raw_body req))) (hmac_header req)"
  by (auto simp: authentic_def falsy_str_def str_of_def timingSafeEqual_def Buffer_from_def Let_def
      split: option.splits)

lemma handler_cases:
  "handler rv P e remote req =
     (if req_method req \<noteq> ''POST'' then (Responded 200 ''OK'', [])
      else if falsy_str (WEBHOOK_SECRET e) \<or> falsy_str (hmac_header req)
      then (Responded 401 ''Missing secret or hmac'', [])
      else if \<not> authentic P e req then (Responded 401 ''Bad HMAC'', [])
      else after_auth rv P remote req)"
  by (simp add: handler_def after_auth_def Let_def authentic_iff cong: option.case_cong if_cong)




lemma after_auth_fetched:
  assumes "JSON_parse P (raw_body req) = Some order"
    and "get_prop (Some order) ''id'' = Some orderId" and "truthy orderId" and "converts orderId"
    and "remote (GET_order orderId) = Some oResp" and "ok oResp" and "body oResp = Some fullOrder"
  shows "after_auth rv P remote req =
    (case rv of
       Untagged \<Rightarrow> reconcile P remote orderId fullOrder [GET_order orderId]
     | Tagged \<Rightarrow> tag_filter P remote orderId fullOrder [GET_order orderId])"
  using assms by (simp add: after_auth_def)

lemma marker_examples:
  "str_includes (toLowerCase ''Wholesale, SAMITA-Wholesale'') ''samita-wholesale''"
  "\<not> str_includes (toLowerCase ''retail'') ''samita-wholesale''"
  by (simp_all add: toLowerCase_def)

text \<open>
  C5 (second revision). For an authentic POST whose order fetch succeeds (the id of the
  body is truthy and went into the path of the fetch, the call resolved with \<^verbatim>\<open>ok\<close> and
  a JSON body) and whose \<^verbatim>\<open>tags\<close> are a string \<open>t\<close> (or are missing, \<open>t\<close> empty): when the lower-cased \<open>t\<close> does not
  contain \<^verbatim>\<open>samita-wholesale\<close> the handler answers 200 and the order fetch stays its only
  remote call; when it does, the handler goes on with the \<^verbatim>\<open>draft_order_id\<close> step. The
  tags of the two examples are on either side.
\<close>

theorem tag_filter_gate:
  assumes "req_method req = ''POST''" and "authentic P e req"
    and "JSON_parse P (raw_body req) = Some order"
    and "get_prop (Some order) ''id'' = Some orderId" and "truthy orderId" and "converts orderId"
    and "remote (GET_order orderId) = Some oResp" and "ok oResp" and "body oResp = Some fullOrder"
    and "or_else (get_prop (get_prop (Some fullOrder) ''order'') ''tags'') (JStr '''') = JStr t"
  shows "(\<not> str_includes (toLowerCase t) ''samita-wholesale'' \<longrightarrow>
        handler Tagged P e remote req = (Responded 200 ''Not a Samita order'', [GET_order orderId])) \<and>
    (str_includes (toLowerCase t) ''samita-wholesale'' \<longrightarrow>
        handler Tagged P e remote req = reconcile P remote orderId fullOrder [GET_order orderId]) \<and>
    str_includes (toLowerCase ''Wholesale, SAMITA-Wholesale'') ''samita-wholesale'' \<and>
    \<not> str_includes (toLowerCase ''retail'') ''samita-wholesale''"
proof -
  have "handler Tagged P e remote req = tag_filter P remote orderId fullOrder [GET_order orderId]"
    using assms(1,2) after_auth_fetched[where remote = remote and rv = Tagged, OF assms(3-9)]
    by (simp add: handler_cases authentic_iff)
  then show ?thesis using assms(10) marker_examples
    by (simp add: tag_filter_def Let_def)
qed

lemma test_request_authentic: "authentic test_platform test_env test_request"
  by (simp add: authentic_def test_platform_def test_env_def test_request_def)

lemma test_request_parse:
  "JSON_parse test_platform (raw_body test_request) = Some (JObj [(''id'', JNum 1)])"
  by (simp add: test_platform_def test_request_def)

text \<open>C5 at an order tagged \<^verbatim>\<open>retail\<close>.\<close>

theorem tag_filter_gate_witness:
  "handler Tagged test_platform test_env retail_shop test_request =
     (Responded 200 ''Not a Samita order'', [GET_order (JNum 1)])"
proof -
  have t: "or_else (get_prop (get_prop (Some retail_order) ''order'') ''tags'') (JStr '''') = JStr ''retail''"
    by (simp add: retail_order_def or_else_def)
  have "\<not> str_includes (toLowerCase ''retail'') ''samita-wholesale'' \<longrightarrow>
        handler Tagged test_platform test_env retail_shop test_request =
          (Responded 200 ''Not a Samita order'', [GET_order (JNum 1)])"
    using tag_filter_gate[of test_request test_platform test_env "JObj [(''id'', JNum 1)]" "JNum 1"
        retail_shop "\<lparr> ok = True, body = Some retail_order \<rparr>" retail_order "''retail''"]
      test_request_authentic test_request_parse t
    by (simp add: test_request_def retail_shop_def)
  then show ?thesis using marker_examples(2) by blast
qed

text \<open>
  C7. For an authentic POST whose order fetch succeeds (the id of the body is truthy
  and went into the path of the fetch, the call resolved with \<^verbatim>\<open>ok\<close> and a JSON body)
  and, in the second revision, whose tags contain the marker: when the fetched order has no truthy
  \<^verbatim>\<open>draft_order_id\<close> the handler answers 200 and the order fetch stays its only remote
  call.
\<close>

theorem no_draft_link:
  assumes "req_method req = ''POST''" and "authentic P e req"
    and "JSON_parse P (raw_body req) = Some order"
    and "get_prop (Some order) ''id'' = Some orderId" and "truthy orderId" and "converts orderId"
    and "remote (GET_order orderId) = Some oResp" and "ok oResp" and "body oResp = Some fullOrder"
    and "rv = Tagged \<longrightarrow>
         (\<exists>t. or_else (get_prop (get_prop (Some fullOrder) ''order'') ''tags'') (JStr '''') = JStr t \<and>
              str_includes (toLowerCase t) ''samita-wholesale'')"
    and "\<not> truthy_opt (get_prop (get_prop (Some fullOrder) ''order'') ''draft_order_id'')"
  shows "handler rv P e remote req = (Responded 200 ''No draft link'', [GET_order orderId])"
proof -
  have r: "reconcile P remote orderId fullOrder [GET_order orderId] =
      (Responded 200 ''No draft link'', [GET_order orderId])"
    using assms(11) by (auto simp: reconcile_def truthy_opt_def split: option.splits)
  have h: "handler rv P e remote req = (case rv of
       Untagged \<Rightarrow> reconcile P remote orderId fullOrder [GET_order orderId]
     | Tagged \<Rightarrow> tag_filter P remote orderId fullOrder [GET_order orderId])"
    using assms(1,2) after_auth_fetched[where remote = remote and rv = rv, OF assms(3-9)]
    by (simp add: handler_cases authentic_iff)
  show ?thesis
  proof (cases rv)
    case Untagged
    then show ?thesis using h r by simp
  next
    case Tagged
    with assms(10) obtain t where
      "or_else (get_prop (get_prop (Some fullOrder) ''order'') ''tags'') (JStr '''') = JStr t"
      "str_includes (toLowerCase t) ''samita-wholesale''" by blast
    then have "tag_filter P remote orderId fullOrder [GET_order orderId] =
        reconcile P remote orderId fullOrder [GET_order orderId]"
      by (simp add: tag_filter_def Let_def)
    then show ?thesis using h r Tagged by simp
  qed
qed

text \<open>C7 in the second revision, at an order with the marker tag and a \<^verbatim>\<open>null\<close> draft_order_id.\<close>

theorem no_draft_link_witness:
  "handler Tagged test_platform test_env samita_shop test_request =
     (Responded 200 ''No draft link'', [GET_order (JNum 1)])"
proof -
  have t: "Tagged = Tagged \<longrightarrow>
      (\<exists>t. or_else (get_prop (get_prop (Some samita_order) ''order'') ''tags'') (JStr '''') = JStr t \<and>
           str_includes (toLowerCase t) ''samita-wholesale'')"
    using marker_examples(1) by (simp add: samita_order_def or_else_def)
  have d: "\<not> truthy_opt (get_prop (get_prop (Some samita_order) ''order'') ''draft_order_id'')"
    by (simp add: samita_order_def truthy_opt_def)
  show ?thesis
    by (rule no_draft_link[where order = "JObj [(''id'', JNum 1)]" and fullOrder = samita_order
          and oResp = "\<lparr> ok = True, body = Some samita_order \<rparr>", OF _ test_request_authentic test_request_parse _ _ _ _ _ _ t d])
       (simp_all add: test_request_def samita_shop_def)
qed

lemma after_auth_sent:
  assumes "fst (after_auth rv P remote req) = Responded s m"
  shows "(s = 200 \<or> s = 400) \<and> (s = 400 \<longleftrightarrow> JSON_parse P (raw_body req) = None)"
proof -
  have r: "fst (reconcile P remote orderId fullOrder calls) = Responded s m \<Longrightarrow> s = 200"
    for orderId fullOrder calls
    using ack_reconcile[of P remote orderId fullOrder calls] by (simp add: ack_or_threw_def)
  have t: "fst (tag_filter P remote orderId fullOrder calls) = Responded s m \<Longrightarrow> s = 200"
    for orderId fullOrder calls
    using ack_tag_filter[of P remote orderId fullOrder calls] by (simp add: ack_or_threw_def)
  show ?thesis using assms r t
    by (auto simp: after_auth_def split: option.splits if_splits revision.splits)
qed

text \<open>
  On every path on which the handler sends a response the status is as the
  specification says: 401 exactly for a POST that fails authentication, 400 exactly for an
  authentic POST whose body does not parse, 200 otherwise.
\<close>

lemma status_when_sent:
  assumes "fst (handler rv P e remote req) = Responded s m"
  shows "(s = 200 \<or> s = 401 \<or> s = 400) \<and>
    (s = 401 \<longleftrightarrow> req_method req = ''POST'' \<and> \<not> authentic P e req) \<and>
    (s = 400 \<longleftrightarrow> req_method req = ''POST'' \<and> authentic P e req \<and>
       JSON_parse P (raw_body req) = None)"
proof (cases "req_method req = ''POST''")
  case False
  then show ?thesis using assms by (simp add: handler_cases)
next
  case True
  show ?thesis
  proof (cases "authentic P e req")
    case False
    then show ?thesis using True assms by (auto simp: handler_cases split: if_splits)
  next
    case auth: True
    then have "handler rv P e remote req = after_auth rv P remote req"
      using True by (simp add: handler_cases authentic_iff)
    then show ?thesis using after_auth_sent[of rv P remote req s m] assms True auth by auto
  qed
qed

lemma unconvertible_request_authentic: "authentic test_platform test_env unconvertible_request"
  by (simp add: authentic_def test_platform_def test_env_def unconvertible_request_def)

lemma unconvertible_request_parse:
  "JSON_parse test_platform (raw_body unconvertible_request) =
     Some (JObj [(''id'', JObj [(''toString'', JNum 1)])])"
  by (simp add: test_platform_def unconvertible_request_def)

text \<open>
  C6 fails on the code where an exception leaves the handler. No \<^verbatim>\<open>try\<close> surrounds a
  remote call: when the order fetch of an authentic, well-formed POST is rejected (a
  network error) the handler has made one remote call and sends no status, none of 200,
  401 and 400. The same happens before any remote call when the id of the body cannot
  be converted to a string for the path of the fetch.
\<close>

theorem exception_sends_no_status:
  "handler Untagged test_platform test_env no_reply test_request = (Threw, [GET_order (JNum 1)]) \<and>
   status_of (fst (handler Untagged test_platform test_env no_reply test_request)) \<notin>
     {Some 200, Some 401, Some 400} \<and>
   handler Untagged test_platform test_env samita_shop unconvertible_request = (Threw, [])"
proof -
  have a: "handler Untagged test_platform test_env no_reply test_request = (Threw, [GET_order (JNum 1)])"
    using test_request_authentic test_request_parse
    by (simp add: handler_cases authentic_iff after_auth_def no_reply_def test_request_def)
  have b: "handler Untagged test_platform test_env samita_shop unconvertible_request = (Threw, [])"
    using unconvertible_request_authentic unconvertible_request_parse
    by (simp add: handler_cases authentic_iff after_auth_def unconvertible_request_def)
  from a b show ?thesis by simp
qed

end
